theory Spec2Isabelle
  imports Complex_Main "HOL-Library.Word"
begin

unbundle bit_operations_syntax

section \<open>NEXTHASH-256: a shallow embedding of nexthash256.c\<close>

text \<open>
  The C types are modelled as follows: \<open>uint8_t\<close>, \<open>uint32_t\<close> and \<open>uint64_t\<close> are
  8, 32 and 64 bit words (arithmetic wraps); an array is a list that is read with
  \<open>!\<close> and written with list update; a \<open>size_t\<close> or \<open>int\<close> counter is a natural
  number, and the one expression of the source that asks whether an \<open>int\<close> is
  negative is kept on \<open>int\<close>. A pointer with a length (\<open>data\<close>, \<open>len\<close>) is the list
  of the bytes found at the pointer together with the length: \<open>data += n\<close> is
  \<open>drop n\<close>, and a read of \<open>n\<close> bytes is \<open>take n\<close>. Functions that write through a
  pointer return what they leave there.
\<close>

type_synonym u8 = "8 word"
type_synonym u32 = "32 word"
type_synonym u64 = "64 word"

subsection \<open>Constants\<close>

definition K :: "u32 list" where
  "K = [0x428A2F98, 0x71374491, 0xB5C0FBCF, 0xE9B5DBA5,
        0x3956C25B, 0x59F111F1, 0x923F82A4, 0xAB1C5ED5,
        0xD807AA98, 0x12835B01, 0x243185BE, 0x550C7DC3,
        0x72BE5D74, 0x80DEB1FE, 0x9BDC06A7, 0xC19BF174,
        0xE49B69C1, 0xEFBE4786, 0x0FC19DC6, 0x240CA1CC,
        0x2DE92C6F, 0x4A7484AA, 0x5CB0A9DC, 0x76F988DA,
        0x983E5152, 0xA831C66D, 0xB00327C8, 0xBF597FC7,
        0xC6E00BF3, 0xD5A79147, 0x06CA6351, 0x14292967,
        0x27B70A85, 0x2E1B2138, 0x4D2C6DFC, 0x53380D13,
        0x650A7354, 0x766A0ABB, 0x81C2C92E, 0x92722C85,
        0xA2BFE8A1, 0xA81A664B, 0xC24B8B70, 0xC76C51A3,
        0xD192E819, 0xD6990624, 0xF40E3585, 0x106AA070,
        0x19A4C116, 0x1E376C08, 0x2748774C, 0x34B0BCB5]"

definition H_INIT :: "u32 list" where
  "H_INIT = [0x6A09E667, 0xBB67AE85, 0x3C6EF372, 0xA54FF53A,
             0x510E527F, 0x9B05688C, 0x1F83D9AB, 0x5BE0CD19,
             0xCBBB9D5D, 0x629A292A, 0x9159015A, 0x152FECD8,
             0x67332667, 0x8EB44A87, 0xDB0C2E0D, 0x47B5481D]"

subsection \<open>Helper functions\<close>

definition rotr :: "u32 \<Rightarrow> nat \<Rightarrow> u32" where
  "rotr x n = drop_bit n x OR push_bit (32 - n) x"

definition rotl :: "u32 \<Rightarrow> nat \<Rightarrow> u32" where
  "rotl x n = push_bit n x OR drop_bit (32 - n) x"

definition widening_mul :: "u32 \<Rightarrow> u32 \<Rightarrow> u32" where
  "widening_mul a b =
     (let product = (ucast a :: u64) * (ucast b :: u64)
      in (ucast (drop_bit 32 product) :: u32) XOR (ucast product :: u32))"

definition Ch :: "u32 \<Rightarrow> u32 \<Rightarrow> u32 \<Rightarrow> u32" where
  "Ch x y z = (x AND y) XOR (NOT x AND z)"

definition Maj :: "u32 \<Rightarrow> u32 \<Rightarrow> u32 \<Rightarrow> u32" where
  "Maj x y z = (x AND y) XOR (x AND z) XOR (y AND z)"

definition Sigma0 :: "u32 \<Rightarrow> u32" where
  "Sigma0 x = rotr x 2 XOR rotr x 13 XOR rotr x 22"

definition Sigma1 :: "u32 \<Rightarrow> u32" where
  "Sigma1 x = rotr x 6 XOR rotr x 11 XOR rotr x 25"

definition sigma0 :: "u32 \<Rightarrow> u32" where
  "sigma0 x = rotr x 7 XOR rotr x 18 XOR drop_bit 3 x"

definition sigma1 :: "u32 \<Rightarrow> u32" where
  "sigma1 x = rotr x 17 XOR rotr x 19 XOR drop_bit 10 x"

subsection \<open>Message schedule\<close>

text \<open>The big-endian word that the first loop of \<open>expand_message\<close> stores in \<open>W[i]\<close>.\<close>

definition parse_word :: "u8 list \<Rightarrow> nat \<Rightarrow> u32" where
  "parse_word block i =
     push_bit 24 (ucast (block ! (i * 4)) :: u32) OR
     push_bit 16 (ucast (block ! (i * 4 + 1)) :: u32) OR
     push_bit 8 (ucast (block ! (i * 4 + 2)) :: u32) OR
     (ucast (block ! (i * 4 + 3)) :: u32)"

function parse_loop :: "nat \<Rightarrow> u8 list \<Rightarrow> u32 list \<Rightarrow> u32 list" where
  "parse_loop i block W =
     (if i < 16 then parse_loop (i + 1) block (W[i := parse_word block i]) else W)"
  by pat_completeness auto
termination
  by (relation "measure (\<lambda>(i, block, W). 16 - i)") auto

text \<open>
  The index expression \<open>(i-14 < 0 ? i-14+52 : i-14)\<close> of the source, on the C \<open>int\<close>
  that \<open>i\<close> is there.
\<close>

definition guarded_index :: "int \<Rightarrow> int" where
  "guarded_index i = (if i - 14 < 0 then i - 14 + 52 else i - 14)"

text \<open>The value that one iteration of the second loop stores in \<open>W[i]\<close>.\<close>

definition expand_word :: "u32 list \<Rightarrow> nat \<Rightarrow> u32" where
  "expand_word W i =
     (let linear = sigma1 (W ! (i - 2)) + W ! (i - 7) + sigma0 (W ! (i - 15)) + W ! (i - 16);
          nl1 = widening_mul (W ! (i - 3)) (W ! (i - 10));
          nl2 = widening_mul (W ! (i - 5)) (W ! (i - 12));
          nl3 = widening_mul (W ! (i - 1) XOR W ! (i - 8))
                             (W ! (i - 4) XOR W ! nat (guarded_index (int i)))
      in linear + nl1 + (nl2 XOR nl3))"

function expand_loop :: "nat \<Rightarrow> u32 list \<Rightarrow> u32 list" where
  "expand_loop i W =
     (if i < 52 then expand_loop (i + 1) (W[i := expand_word W i]) else W)"
  by pat_completeness auto
termination
  by (relation "measure (\<lambda>(i, W). 52 - i)") auto

text \<open>
  \<open>expand_message block W\<close>: \<open>W\<close> is the caller's array of 52 words, whose contents on
  entry are not initialised; every entry is written before it is read.
\<close>

definition expand_message :: "u8 list \<Rightarrow> u32 list \<Rightarrow> u32 list" where
  "expand_message block W = expand_loop 16 (parse_loop 0 block W)"

subsection \<open>Round function\<close>

definition nexthash_round :: "u32 list \<Rightarrow> u32 \<Rightarrow> u32 \<Rightarrow> u32 list" where
  "nexthash_round st W_i K_i =
     (let a = st ! 0; b = st ! 1; c = st ! 2; d = st ! 3;
          e = st ! 4; f = st ! 5; g = st ! 6; h = st ! 7;
          i = st ! 8; j = st ! 9; k = st ! 10; l = st ! 11;
          m = st ! 12; n = st ! 13; o' = st ! 14; p = st ! 15;
          T1 = h + Sigma1 e + Ch e f g + K_i + W_i;
          T2 = Sigma0 a + Maj a b c;
          M1 = widening_mul (a XOR i) (e XOR m);
          M2 = widening_mul (b XOR j) (f XOR n);
          M3 = widening_mul (c XOR k) (g XOR o');
          M4 = widening_mul (d XOR l) (h XOR p);
          M5 = widening_mul (a XOR m) (e XOR i);
          M6 = widening_mul (b XOR n) (f XOR j);
          M7 = widening_mul (c XOR o') (g XOR k);
          M8 = widening_mul (d XOR p) (h XOR l);
          M9 = widening_mul (a XOR p) (d XOR m);
          M10 = widening_mul (b XOR o') (c XOR n);
          T3 = p + Sigma1 m + Ch m n o' + (K_i XOR 0x5A5A5A5A) + W_i;
          T4 = Sigma0 i + Maj i j k
      in st[0 := T1 + T2 + M1 + M5 + M9,
            1 := a + M6 + M10,
            2 := b,
            3 := c + M2 + M7,
            4 := d + T1 + M9,
            5 := e + M8,
            6 := f,
            7 := g + M3 + M10,
            8 := T3 + T4 + M1 + M5,
            9 := i + M6,
            10 := j,
            11 := k + M4 + M7,
            12 := l + T3 + M9,
            13 := m + M8,
            14 := n,
            15 := o' + (M2 XOR M3 XOR M4) + M10])"

subsection \<open>Permutation\<close>

text \<open>
  \<open>temp\<close> is filled entry by entry and then copied over the 16 words of \<open>state\<close>
  (\<open>memcpy(state, temp, 64)\<close>).
\<close>

definition full_permutation :: "u32 list \<Rightarrow> u32 list" where
  "full_permutation st =
     (let temp = [st ! 0, st ! 8, st ! 1, st ! 9, st ! 2, st ! 10, st ! 3, st ! 11,
                  st ! 4, st ! 12, st ! 5, st ! 13, st ! 6, st ! 14, st ! 7, st ! 15]
      in temp @ drop 16 st)"

subsection \<open>Compression function\<close>

function round_loop :: "nat \<Rightarrow> u32 list \<Rightarrow> u32 list \<Rightarrow> u32 list" where
  "round_loop round_num W working =
     (if round_num < 52 then
        (let working1 = nexthash_round working (W ! round_num) (K ! round_num);
             working2 = (if (round_num + 1) mod 4 = 0 then full_permutation working1
                         else working1)
         in round_loop (round_num + 1) W working2)
      else working)"
  by pat_completeness auto
termination
  by (relation "measure (\<lambda>(round_num, W, working). 52 - round_num)") auto

function feed_forward_loop :: "nat \<Rightarrow> u32 list \<Rightarrow> u32 list \<Rightarrow> u32 list" where
  "feed_forward_loop i st working =
     (if i < 16 then feed_forward_loop (i + 1) (st[i := st ! i + working ! i]) working
      else st)"
  by pat_completeness auto
termination
  by (relation "measure (\<lambda>(i, st, working). 16 - i)") auto

definition compress :: "u32 list \<Rightarrow> u8 list \<Rightarrow> u32 list" where
  "compress st block =
     (let W = expand_message block (replicate 52 0);
          working = round_loop 0 W st
      in feed_forward_loop 0 st working)"

subsection \<open>Finalization\<close>

text \<open>
  Each loop over \<open>i\<close> of \<open>finalize_hash\<close> writes every entry of a fresh array
  once, from values that the loop does not change: it is a map over \<open>0, \<dots>, 7\<close>.
  The value that the first fold stores in \<open>folded[i]\<close>:
\<close>

definition fold_word :: "u32 list \<Rightarrow> nat \<Rightarrow> u32" where
  "fold_word st i =
     (let upper = st ! i; lower = st ! (i + 8)
      in (upper XOR lower) +
         widening_mul upper (rotl lower 13) +
         widening_mul lower (rotr upper 7) +
         widening_mul (upper XOR lower) (rotr upper 3 XOR rotl lower 11) +
         rotr (upper XOR lower) (i + 1))"

text \<open>The value that a round of final mixing stores in \<open>new_folded[i]\<close>.\<close>

definition mix_word :: "u32 list \<Rightarrow> nat \<Rightarrow> u32" where
  "mix_word folded i =
     folded ! i +
     widening_mul (folded ! ((i + 1) mod 8)) (folded ! ((i + 5) mod 8)) +
     widening_mul (folded ! ((i + 2) mod 8)) (folded ! ((i + 6) mod 8)) +
     rotr (folded ! ((i + 3) mod 8)) 7 +
     rotl (folded ! ((i + 7) mod 8)) 11"

definition mix_round :: "u32 list \<Rightarrow> u32 list" where
  "mix_round folded = map (mix_word folded) [0..<8]"

text \<open>The four digest bytes written for one folded word, most significant first.\<close>

definition digest_word :: "u32 \<Rightarrow> u8 list" where
  "digest_word w =
     [ucast (drop_bit 24 w), ucast (drop_bit 16 w), ucast (drop_bit 8 w), ucast w]"

definition finalize_hash :: "u32 list \<Rightarrow> u8 list" where
  "finalize_hash st =
     (let folded = map (fold_word st) [0..<8];
          folded = mix_round (mix_round (mix_round folded))
      in concat (map (\<lambda>i. digest_word (folded ! i)) [0..<8]))"

subsection \<open>Public API\<close>

record nexthash256_ctx =
  state :: "u32 list"
  bitcount :: u64
  buffer :: "u8 list"
  buflen :: nat

text \<open>
  \<open>memcpy dst off src n\<close> is the array \<open>dst\<close> after \<open>memcpy(dst + off, src, n)\<close>, and
  \<open>memset dst off v n\<close> is \<open>dst\<close> after \<open>memset(dst + off, v, n)\<close>. Both are meant
  with \<open>off + n \<le> length dst\<close>, and \<open>memcpy\<close> with \<open>n \<le> length src\<close>: a C call
  outside these bounds has no defined behaviour.
\<close>

definition memcpy :: "u8 list \<Rightarrow> nat \<Rightarrow> u8 list \<Rightarrow> nat \<Rightarrow> u8 list" where
  "memcpy dst off src n = take off dst @ take n src @ drop (off + n) dst"

definition memset :: "u8 list \<Rightarrow> nat \<Rightarrow> u8 \<Rightarrow> nat \<Rightarrow> u8 list" where
  "memset dst off v n = take off dst @ replicate n v @ drop (off + n) dst"

text \<open>
  \<open>nexthash256_init\<close> writes \<open>state\<close>, \<open>bitcount\<close> and \<open>buflen\<close> and leaves \<open>buffer\<close>
  as it finds it.
\<close>

definition nexthash256_init :: "nexthash256_ctx \<Rightarrow> nexthash256_ctx" where
  "nexthash256_init ctx = ctx\<lparr>state := H_INIT, bitcount := 0, buflen := 0\<rparr>"

text \<open>The loop over complete blocks: \<open>while (len >= 64)\<close>.\<close>

function block_loop :: "u32 list \<Rightarrow> u8 list \<Rightarrow> nat \<Rightarrow> u32 list \<times> u8 list \<times> nat" where
  "block_loop st data len =
     (if len \<ge> 64 then block_loop (compress st (take 64 data)) (drop 64 data) (len - 64)
      else (st, data, len))"
  by pat_completeness auto
termination
  by (relation "measure (\<lambda>(st, data, len). len)") auto

text \<open>The part of \<open>nexthash256_update\<close> after the branch on buffered data.\<close>

definition update_blocks :: "nexthash256_ctx \<Rightarrow> u8 list \<Rightarrow> nat \<Rightarrow> nexthash256_ctx" where
  "update_blocks ctx data len =
     (case block_loop (state ctx) data len of
        (st, data1, len1) \<Rightarrow>
          (let ctx1 = ctx\<lparr>state := st\<rparr>
           in if len1 > 0
              then ctx1\<lparr>buffer := memcpy (buffer ctx1) 0 data1 len1, buflen := len1\<rparr>
              else ctx1))"

text \<open>
  Every context that the API produces has \<open>buflen < 64\<close>; there \<open>64 - buflen\<close> and the
  other \<open>size_t\<close> subtractions of the source do not go below zero, so that the
  subtraction of natural numbers is the one of C.
\<close>

definition nexthash256_update :: "nexthash256_ctx \<Rightarrow> u8 list \<Rightarrow> nat \<Rightarrow> nexthash256_ctx" where
  "nexthash256_update ctx data len =
     (let ctx1 = ctx\<lparr>bitcount := bitcount ctx + of_nat (len * 8)\<rparr>
      in if buflen ctx1 > 0 then
           (let need = 64 - buflen ctx1
            in if len < need then
                 ctx1\<lparr>buffer := memcpy (buffer ctx1) (buflen ctx1) data len,
                      buflen := buflen ctx1 + len\<rparr>
               else
                 (let buf = memcpy (buffer ctx1) (buflen ctx1) data need;
                      ctx2 = ctx1\<lparr>buffer := buf, state := compress (state ctx1) buf,
                                  buflen := 0\<rparr>
                  in update_blocks ctx2 (drop need data) (len - need)))
         else update_blocks ctx1 data len)"

definition final_padlen :: "nexthash256_ctx \<Rightarrow> nat" where
  "final_padlen ctx = (if buflen ctx < 56 then 56 - buflen ctx else 120 - buflen ctx)"

text \<open>
  The local array \<open>pad\<close> of \<open>nexthash256_final\<close> when it is handed to
  \<open>nexthash256_update\<close>. Its 128 bytes are not initialised; only the first
  \<open>padlen + 8\<close>, all written here, are read.
\<close>

definition final_pad :: "nexthash256_ctx \<Rightarrow> u8 list" where
  "final_pad ctx =
     (let padlen = final_padlen ctx;
          pad = (replicate 128 0)[0 := 0x80];
          pad = memset pad 1 0 (padlen - 1)
      in pad[padlen := ucast (drop_bit 56 (bitcount ctx)),
             padlen + 1 := ucast (drop_bit 48 (bitcount ctx)),
             padlen + 2 := ucast (drop_bit 40 (bitcount ctx)),
             padlen + 3 := ucast (drop_bit 32 (bitcount ctx)),
             padlen + 4 := ucast (drop_bit 24 (bitcount ctx)),
             padlen + 5 := ucast (drop_bit 16 (bitcount ctx)),
             padlen + 6 := ucast (drop_bit 8 (bitcount ctx)),
             padlen + 7 := ucast (bitcount ctx)])"

text \<open>The context after \<open>memset(ctx, 0, sizeof(*ctx))\<close>.\<close>

definition zero_ctx :: nexthash256_ctx where
  "zero_ctx = \<lparr>state = replicate 16 0, bitcount = 0, buffer = replicate 64 0, buflen = 0\<rparr>"

text \<open>\<open>nexthash256_final\<close> returns the digest and the context that it leaves.\<close>

definition nexthash256_final :: "nexthash256_ctx \<Rightarrow> u8 list \<times> nexthash256_ctx" where
  "nexthash256_final ctx =
     (let ctx1 = nexthash256_update ctx (final_pad ctx) (final_padlen ctx + 8);
          digest = finalize_hash (state ctx1)
      in (digest, zero_ctx))"

text \<open>
  The local \<open>ctx\<close> of \<open>nexthash256\<close> and of \<open>hmac_nexthash256\<close> before
  \<open>nexthash256_init\<close>: its contents are indeterminate in C. The digest does not
  depend on them (lemma \<open>digest_absorbed\<close> below).
\<close>

definition local_ctx :: nexthash256_ctx where
  "local_ctx = zero_ctx"

definition nexthash256 :: "u8 list \<Rightarrow> nat \<Rightarrow> u8 list" where
  "nexthash256 data len =
     (let ctx = nexthash256_init local_ctx;
          ctx = nexthash256_update ctx data len
      in fst (nexthash256_final ctx))"

subsection \<open>HMAC-NEXTHASH-256\<close>

function xor_key_loop :: "nat \<Rightarrow> nat \<Rightarrow> u8 list \<Rightarrow> u8 list \<Rightarrow> u8 list \<Rightarrow> u8 list \<times> u8 list" where
  "xor_key_loop i keylen key k_ipad k_opad =
     (if i < keylen
      then xor_key_loop (i + 1) keylen key
             (k_ipad[i := k_ipad ! i XOR key ! i]) (k_opad[i := k_opad ! i XOR key ! i])
      else (k_ipad, k_opad))"
  by pat_completeness auto
termination
  by (relation "measure (\<lambda>(i, keylen, key, k_ipad, k_opad). keylen - i)") auto

definition hmac_nexthash256 :: "u8 list \<Rightarrow> nat \<Rightarrow> u8 list \<Rightarrow> nat \<Rightarrow> u8 list" where
  "hmac_nexthash256 key keylen data datalen =
     (case (if keylen > 64 then (nexthash256 key keylen, 32) else (key, keylen)) of
        (key1, keylen1) \<Rightarrow>
          (case xor_key_loop 0 keylen1 key1 (replicate 64 0x36) (replicate 64 0x5C) of
             (k_ipad, k_opad) \<Rightarrow>
               (let ctx = nexthash256_init local_ctx;
                    ctx = nexthash256_update ctx k_ipad 64;
                    ctx = nexthash256_update ctx data datalen;
                    (digest, ctx) = nexthash256_final ctx;
                    ctx = nexthash256_init ctx;
                    ctx = nexthash256_update ctx k_opad 64;
                    ctx = nexthash256_update ctx digest 32;
                    (digest, ctx) = nexthash256_final ctx
                in digest)))"

subsection \<open>The compression calls of a run\<close>

text \<open>
  To count the invocations of \<open>compress\<close> and to see what they are fed, the functions
  that call it are repeated here with a trace: the list of the blocks handed to
  \<open>compress\<close>, in call order. Their control flow is that of the functions above, and
  lemmas \<open>update_tr_ctx\<close> and \<open>final_tr_digest\<close> show that they compute the same context
  and digest.
\<close>

type_synonym trace = "u8 list list"

function block_loop_tr ::
  "u32 list \<Rightarrow> u8 list \<Rightarrow> nat \<Rightarrow> trace \<Rightarrow> u32 list \<times> u8 list \<times> nat \<times> trace" where
  "block_loop_tr st data len tr =
     (if len \<ge> 64
      then block_loop_tr (compress st (take 64 data)) (drop 64 data) (len - 64)
             (tr @ [take 64 data])
      else (st, data, len, tr))"
  by pat_completeness auto
termination
  by (relation "measure (\<lambda>(st, data, len, tr). len)") auto

definition update_blocks_tr ::
  "nexthash256_ctx \<Rightarrow> u8 list \<Rightarrow> nat \<Rightarrow> trace \<Rightarrow> nexthash256_ctx \<times> trace" where
  "update_blocks_tr ctx data len tr =
     (case block_loop_tr (state ctx) data len tr of
        (st, data1, len1, tr1) \<Rightarrow>
          (let ctx1 = ctx\<lparr>state := st\<rparr>
           in if len1 > 0
              then (ctx1\<lparr>buffer := memcpy (buffer ctx1) 0 data1 len1, buflen := len1\<rparr>, tr1)
              else (ctx1, tr1)))"

definition nexthash256_update_tr ::
  "nexthash256_ctx \<times> trace \<Rightarrow> u8 list \<Rightarrow> nat \<Rightarrow> nexthash256_ctx \<times> trace" where
  "nexthash256_update_tr ct data len =
     (case ct of (ctx, tr) \<Rightarrow>
       (let ctx1 = ctx\<lparr>bitcount := bitcount ctx + of_nat (len * 8)\<rparr>
        in if buflen ctx1 > 0 then
             (let need = 64 - buflen ctx1
              in if len < need then
                   (ctx1\<lparr>buffer := memcpy (buffer ctx1) (buflen ctx1) data len,
                         buflen := buflen ctx1 + len\<rparr>, tr)
                 else
                   (let buf = memcpy (buffer ctx1) (buflen ctx1) data need;
                        ctx2 = ctx1\<lparr>buffer := buf, state := compress (state ctx1) buf,
                                    buflen := 0\<rparr>
                    in update_blocks_tr ctx2 (drop need data) (len - need) (tr @ [buf])))
           else update_blocks_tr ctx1 data len tr))"

definition nexthash256_final_tr ::
  "nexthash256_ctx \<times> trace \<Rightarrow> (u8 list \<times> nexthash256_ctx) \<times> trace" where
  "nexthash256_final_tr ct =
     (case nexthash256_update_tr ct (final_pad (fst ct)) (final_padlen (fst ct) + 8) of
        (ctx1, tr1) \<Rightarrow> ((finalize_hash (state ctx1), zero_ctx), tr1))"

text \<open>
  A streaming run: \<open>nexthash256_init\<close> on a context \<open>c0\<close>, then one
  \<open>nexthash256_update\<close> for each part with the part's length, in order.
\<close>

definition absorb_parts :: "nexthash256_ctx \<Rightarrow> u8 list list \<Rightarrow> nexthash256_ctx" where
  "absorb_parts c0 parts =
     foldl (\<lambda>ctx part. nexthash256_update ctx part (length part)) (nexthash256_init c0) parts"

definition absorb_parts_tr :: "nexthash256_ctx \<Rightarrow> u8 list list \<Rightarrow> nexthash256_ctx \<times> trace" where
  "absorb_parts_tr c0 parts =
     foldl (\<lambda>ct part. nexthash256_update_tr ct part (length part))
       (nexthash256_init c0, []) parts"

subsection \<open>The specification's descriptions\<close>

text \<open>
  The compression function as the specification describes it (section 4.5): one step
  is a round followed, when \<open>(r + 1) mod 4 = 0\<close>, by the permutation; the steps for
  \<open>r = 0, \<dots>, 51\<close> are iterated from the pre-block state, and the result is added
  word by word to the pre-block state.
\<close>

definition spec_round_step :: "u32 list \<Rightarrow> u32 list \<Rightarrow> nat \<Rightarrow> u32 list" where
  "spec_round_step W S r =
     (if (r + 1) mod 4 = 0 then full_permutation (nexthash_round S (W ! r) (K ! r))
      else nexthash_round S (W ! r) (K ! r))"

definition spec_rounds :: "u32 list \<Rightarrow> u8 list \<Rightarrow> nat \<Rightarrow> u32 list" where
  "spec_rounds H B n = foldl (spec_round_step (expand_message B (replicate 52 0))) H [0..<n]"

definition spec_compress :: "u32 list \<Rightarrow> u8 list \<Rightarrow> u32 list" where
  "spec_compress H B = map2 (+) H (spec_rounds H B 52)"

text \<open>
  The padding as the specification describes it (section 4.7): the big-endian bytes of
  a 64-bit count, the padding length for \<open>b\<close> buffered bytes, and the bytes appended to
  a message of \<open>L\<close> bytes.
\<close>

definition spec_be64 :: "nat \<Rightarrow> u8 list" where
  "spec_be64 n = map (\<lambda>k. of_nat (n div 256 ^ (7 - k) mod 256)) [0..<8]"

definition spec_padlen :: "nat \<Rightarrow> nat" where
  "spec_padlen b = (if b < 56 then 56 - b else 120 - b)"

definition spec_padding :: "nat \<Rightarrow> u8 list" where
  "spec_padding L =
     0x80 # replicate (spec_padlen (L mod 64) - 1) 0 @ spec_be64 (8 * L mod 2 ^ 64)"

subsection \<open>Blocks of a byte sequence\<close>

text \<open>
  The complete 64-byte blocks of a byte sequence, in order, and the bytes left over
  after them.
\<close>

function blocks_of :: "u8 list \<Rightarrow> u8 list list" where
  "blocks_of xs = (if length xs \<ge> 64 then take 64 xs # blocks_of (drop 64 xs) else [])"
  by pat_completeness auto
termination
  by (relation "measure length") auto

function rest_of :: "u8 list \<Rightarrow> u8 list" where
  "rest_of xs = (if length xs \<ge> 64 then rest_of (drop 64 xs) else xs)"
  by pat_completeness auto
termination
  by (relation "measure length") auto

text \<open>
  \<open>absorbed ctx M\<close>: the context is the one that a streaming run has after the bytes
  \<open>M\<close>, up to the bytes of \<open>buffer\<close> from position \<open>buflen\<close> on, which no operation
  reads before it writes them.
\<close>

definition absorbed :: "nexthash256_ctx \<Rightarrow> u8 list \<Rightarrow> bool" where
  "absorbed ctx M \<longleftrightarrow>
     state ctx = foldl compress H_INIT (blocks_of M) \<and>
     bitcount ctx = of_nat (length M * 8) \<and>
     length (buffer ctx) = 64 \<and>
     buflen ctx = length (rest_of M) \<and>
     take (buflen ctx) (buffer ctx) = rest_of M"

section \<open>Properties\<close>

declare parse_loop.simps [simp del] expand_loop.simps [simp del]
  round_loop.simps [simp del] feed_forward_loop.simps [simp del]
  block_loop.simps [simp del] block_loop_tr.simps [simp del]
  xor_key_loop.simps [simp del] blocks_of.simps [simp del] rest_of.simps [simp del]

subsection \<open>The permutation\<close>

lemma list16_obtain:
  assumes "length (st :: 'a list) = 16"
  obtains a0 a1 a2 a3 a4 a5 a6 a7 a8 a9 a10 a11 a12 a13 a14 a15
    where "st = [a0, a1, a2, a3, a4, a5, a6, a7, a8, a9, a10, a11, a12, a13, a14, a15]"
  using assms by (auto simp: numeral_eq_Suc length_Suc_conv)

lemma full_permutation_length: "length st = 16 \<Longrightarrow> length (full_permutation st) = 16"
  by (simp add: full_permutation_def)

lemma full_permutation_4:
  assumes "length st = 16"
  shows "(full_permutation ^^ 4) st = st"
proof -
  from assms obtain a0 a1 a2 a3 a4 a5 a6 a7 a8 a9 a10 a11 a12 a13 a14 a15
    where st: "st = [a0, a1, a2, a3, a4, a5, a6, a7, a8, a9, a10, a11, a12, a13, a14, a15]"
    by (rule list16_obtain)
  show ?thesis
    by (simp add: st full_permutation_def numeral_eq_Suc)
qed

lemma full_permutation_13:
  assumes "length st = 16"
  shows "(full_permutation ^^ 13) st = full_permutation st"
proof -
  have "(full_permutation ^^ 13) st = (full_permutation ^^ (4 + (4 + (4 + 1)))) st"
    by simp
  also have "\<dots> = full_permutation st"
    unfolding funpow_add o_apply
    using full_permutation_4 assms full_permutation_length by simp
  finally show ?thesis .
qed

lemma full_permutation_not_id:
  "full_permutation [0, 1, 2, 3, 4, 5, 6, 7, 8, 9, 10, 11, 12, 13, 14, 15]
     \<noteq> [0, 1, 2, 3, 4, 5, 6, 7, 8, 9, 10, 11, 12, 13, 14, 15]"
  "full_permutation (full_permutation [0, 1, 2, 3, 4, 5, 6, 7, 8, 9, 10, 11, 12, 13, 14, 15])
     \<noteq> [0, 1, 2, 3, 4, 5, 6, 7, 8, 9, 10, 11, 12, 13, 14, 15]"
  "full_permutation (full_permutation (full_permutation
       [0, 1, 2, 3, 4, 5, 6, 7, 8, 9, 10, 11, 12, 13, 14, 15]))
     \<noteq> [0, 1, 2, 3, 4, 5, 6, 7, 8, 9, 10, 11, 12, 13, 14, 15]"
  by (simp_all add: full_permutation_def)

text \<open>
  Claim C10. On every state of 16 words, four applications of the interleave
  \<open>[s0, s8, s1, s9, s2, s10, s3, s11, s4, s12, s5, s13, s6, s14, s7, s15]\<close> give the
  state back, so that the 13 applications made during the 52 rounds of one
  compression compose to a single one. The order is exactly 4: on the state whose
  words are \<open>0, \<dots>, 15\<close>, one, two and three applications all change the state.
\<close>

theorem full_permutation_order_4:
  assumes "length st = 16"
  shows "full_permutation st =
           [st ! 0, st ! 8, st ! 1, st ! 9, st ! 2, st ! 10, st ! 3, st ! 11,
            st ! 4, st ! 12, st ! 5, st ! 13, st ! 6, st ! 14, st ! 7, st ! 15]
         \<and> (full_permutation ^^ 4) st = st
         \<and> (full_permutation ^^ 13) st = full_permutation st
         \<and> full_permutation [0, 1, 2, 3, 4, 5, 6, 7, 8, 9, 10, 11, 12, 13, 14, 15]
             \<noteq> [0, 1, 2, 3, 4, 5, 6, 7, 8, 9, 10, 11, 12, 13, 14, 15]
         \<and> (full_permutation ^^ 2) [0, 1, 2, 3, 4, 5, 6, 7, 8, 9, 10, 11, 12, 13, 14, 15]
             \<noteq> [0, 1, 2, 3, 4, 5, 6, 7, 8, 9, 10, 11, 12, 13, 14, 15]
         \<and> (full_permutation ^^ 3) [0, 1, 2, 3, 4, 5, 6, 7, 8, 9, 10, 11, 12, 13, 14, 15]
             \<noteq> [0, 1, 2, 3, 4, 5, 6, 7, 8, 9, 10, 11, 12, 13, 14, 15]"
proof -
  have "full_permutation st =
          [st ! 0, st ! 8, st ! 1, st ! 9, st ! 2, st ! 10, st ! 3, st ! 11,
           st ! 4, st ! 12, st ! 5, st ! 13, st ! 6, st ! 14, st ! 7, st ! 15]"
    using assms by (simp add: full_permutation_def)
  moreover have "(full_permutation ^^ 2) = (\<lambda>s. full_permutation (full_permutation s))"
    and "(full_permutation ^^ 3) =
           (\<lambda>s. full_permutation (full_permutation (full_permutation s)))"
    by (simp_all add: fun_eq_iff numeral_eq_Suc)
  ultimately show ?thesis
    using full_permutation_4 [OF assms] full_permutation_13 [OF assms]
      full_permutation_not_id
    by simp
qed

theorem full_permutation_order_4_witness:
  "length H_INIT = 16 \<and> (full_permutation ^^ 4) H_INIT = H_INIT
   \<and> (full_permutation ^^ 13) H_INIT = full_permutation H_INIT"
proof -
  have len: "length H_INIT = 16" by (simp add: H_INIT_def)
  from full_permutation_order_4 [OF len] len show ?thesis by simp
qed

subsection \<open>The message schedule\<close>

lemma parse_loop_length: "length (parse_loop i block W) = length W"
  by (induction i block W rule: parse_loop.induct) (subst parse_loop.simps, simp)

lemma parse_loop_nth:
  "j < length W \<Longrightarrow> j < 16 \<Longrightarrow>
   parse_loop i block W ! j = (if i \<le> j then parse_word block j else W ! j)"
proof (induction i block W rule: parse_loop.induct)
  case (1 i block W)
  show ?case
  proof (cases "i < 16")
    case True
    let ?W' = "W[i := parse_word block i]"
    from True have unf: "parse_loop i block W = parse_loop (Suc i) block ?W'"
      by (subst parse_loop.simps) simp
    have IH: "parse_loop (Suc i) block ?W' ! j =
              (if Suc i \<le> j then parse_word block j else ?W' ! j)"
      using 1 True by simp
    consider "j < i" | "j = i" | "i < j" by arith
    then show ?thesis
      using "1.prems" IH by cases (simp_all add: unf)
  next
    case False
    with 1 show ?thesis by (subst parse_loop.simps) simp
  qed
qed

lemma parse_loop_above:
  "16 \<le> j \<Longrightarrow> parse_loop i block W ! j = W ! j"
proof (induction i block W rule: parse_loop.induct)
  case (1 i block W)
  then show ?case by (subst parse_loop.simps) (auto simp: nth_list_update)
qed

lemma expand_loop_length: "length (expand_loop i W) = length W"
  by (induction i W rule: expand_loop.induct) (subst expand_loop.simps, simp)

lemma expand_loop_below: "j < i \<Longrightarrow> expand_loop i W ! j = W ! j"
proof (induction i W rule: expand_loop.induct)
  case (1 i W)
  then show ?case by (subst expand_loop.simps) (auto simp: nth_list_update)
qed

lemma guarded_index_dead: "16 \<le> i \<Longrightarrow> guarded_index i = i - 14"
  by (simp add: guarded_index_def)

lemma expand_word_cong:
  assumes "16 \<le> i" and "\<And>k. k < i \<Longrightarrow> W ! k = W' ! k"
  shows "expand_word W i = expand_word W' i"
proof -
  have "nat (guarded_index (int i)) = i - 14"
    using assms(1) by (simp add: guarded_index_def)
  with assms show ?thesis
    by (simp add: expand_word_def)
qed

lemma expand_loop_at:
  "16 \<le> i \<Longrightarrow> i \<le> j \<Longrightarrow> j < 52 \<Longrightarrow> length W = 52 \<Longrightarrow>
   expand_loop i W ! j = expand_word (expand_loop i W) j"
proof (induction i W rule: expand_loop.induct)
  case (1 i W)
  let ?W' = "W[i := expand_word W i]"
  from 1 have lt: "i < 52" by simp
  then have unf: "expand_loop i W = expand_loop (i + 1) ?W'"
    by (subst expand_loop.simps) simp
  show ?case
  proof (cases "i = j")
    case True
    have "expand_loop (i + 1) ?W' ! i = ?W' ! i"
      by (rule expand_loop_below) simp
    also have "\<dots> = expand_word W i" using lt 1 by simp
    also have "\<dots> = expand_word (expand_loop (i + 1) ?W') i"
    proof (rule expand_word_cong)
      show "16 \<le> i" by fact
      fix k assume "k < i"
      then show "W ! k = expand_loop (i + 1) ?W' ! k"
        by (simp add: expand_loop_below)
    qed
    finally show ?thesis using True unf by simp
  next
    case False
    with 1 lt show ?thesis unfolding unf by simp
  qed
qed

lemma expand_message_length: "length (expand_message block W) = length W"
  by (simp add: expand_message_def expand_loop_length parse_loop_length)

lemma expand_message_parse:
  "j < 16 \<Longrightarrow> length W = 52 \<Longrightarrow> expand_message block W ! j = parse_word block j"
  by (simp add: expand_message_def expand_loop_below parse_loop_nth)

lemma expand_message_expand:
  "16 \<le> j \<Longrightarrow> j < 52 \<Longrightarrow> length W = 52 \<Longrightarrow>
   expand_message block W ! j = expand_word (expand_message block W) j"
  unfolding expand_message_def by (rule expand_loop_at) (simp_all add: parse_loop_length)

lemma expand_message_uninit:
  assumes "length W = 52" "length W' = 52"
  shows "expand_message block W = expand_message block W'"
proof -
  have "j < 52 \<Longrightarrow> expand_message block W ! j = expand_message block W' ! j" for j
  proof (induction j rule: less_induct)
    case (less j)
    show ?case
    proof (cases "j < 16")
      case True
      then show ?thesis using assms by (simp add: expand_message_parse)
    next
      case False
      then have "expand_word (expand_message block W) j = expand_word (expand_message block W') j"
        using less by (intro expand_word_cong) simp_all
      then show ?thesis using False less.prems assms by (simp add: expand_message_expand)
    qed
  qed
  then show ?thesis using assms
    by (simp add: list_eq_iff_nth_eq expand_message_length)
qed

text \<open>
  Claim C3. For every 64-byte block and every \<open>i\<close> with \<open>16 \<le> i < 52\<close>, the schedule
  that \<open>expand_message\<close> leaves in the caller's 52-word array satisfies
  \<open>W[i] = (sigma1(W[i-2]) + W[i-7] + sigma0(W[i-15]) + W[i-16]) + wmul(W[i-3], W[i-10])
  + (wmul(W[i-5], W[i-12]) XOR wmul(W[i-1] XOR W[i-8], W[i-4] XOR W[i-14]))\<close>, the
  additions being those of 32-bit words; and the guarded index of the source is
  \<open>i - 14\<close> there: its negative branch is never taken.
\<close>

theorem schedule_recurrence:
  assumes "length block = 64" and "length W0 = 52" and "16 \<le> i" and "i < 52"
  shows "(let W = expand_message block W0
          in W ! i = (sigma1 (W ! (i - 2)) + W ! (i - 7) + sigma0 (W ! (i - 15)) + W ! (i - 16))
                     + widening_mul (W ! (i - 3)) (W ! (i - 10))
                     + (widening_mul (W ! (i - 5)) (W ! (i - 12)) XOR
                        widening_mul (W ! (i - 1) XOR W ! (i - 8)) (W ! (i - 4) XOR W ! (i - 14))))
         \<and> guarded_index (int i) = int i - 14"
proof -
  have g: "guarded_index (int i) = int i - 14"
    using assms(3) by (simp add: guarded_index_def)
  then have n: "nat (guarded_index (int i)) = i - 14" by simp
  have "expand_message block W0 ! i = expand_word (expand_message block W0) i"
    using assms by (simp add: expand_message_expand)
  then show ?thesis using g n
    by (simp add: Let_def expand_word_def)
qed

theorem schedule_recurrence_witness:
  "(let W = expand_message (replicate 64 0) (replicate 52 0)
    in W ! 16 = (sigma1 (W ! (16 - 2)) + W ! (16 - 7) + sigma0 (W ! (16 - 15)) + W ! (16 - 16))
                + widening_mul (W ! (16 - 3)) (W ! (16 - 10))
                + (widening_mul (W ! (16 - 5)) (W ! (16 - 12)) XOR
                   widening_mul (W ! (16 - 1) XOR W ! (16 - 8))
                     (W ! (16 - 4) XOR W ! (16 - 14))))
   \<and> guarded_index (int 16) = int 16 - 14"
  by (rule schedule_recurrence) simp_all

subsection \<open>The compression function\<close>

lemma nexthash_round_length: "length (nexthash_round st w k) = length st"
  by (simp add: nexthash_round_def Let_def)

lemma spec_round_step_length:
  "length S = 16 \<Longrightarrow> length (spec_round_step W S r) = 16"
  by (simp add: spec_round_step_def full_permutation_length nexthash_round_length)

lemma foldl_spec_round_step_length:
  "length S = 16 \<Longrightarrow> length (foldl (spec_round_step W) S rs) = 16"
  by (induction rs arbitrary: S) (simp_all add: spec_round_step_length)

lemma round_loop_unfold:
  "r < 52 \<Longrightarrow> round_loop r W S = round_loop (Suc r) W (spec_round_step W S r)"
  by (subst round_loop.simps) (simp add: spec_round_step_def Let_def)

lemma round_loop_foldl:
  "r \<le> 52 \<Longrightarrow> round_loop r W S = foldl (spec_round_step W) S [r..<52]"
proof (induction "52 - r" arbitrary: r S)
  case 0
  then have "r = 52" by simp
  then show ?case by (subst round_loop.simps) simp
next
  case (Suc n)
  then have lt: "r < 52" by simp
  then have "[r..<52] = r # [Suc r..<52]" by (simp add: upt_rec)
  moreover have "round_loop (Suc r) W (spec_round_step W S r) =
                 foldl (spec_round_step W) (spec_round_step W S r) [Suc r..<52]"
    using Suc lt by (intro Suc.hyps) simp_all
  ultimately show ?case using lt by (simp add: round_loop_unfold)
qed

lemma feed_forward_loop_length: "length (feed_forward_loop i st w) = length st"
  by (induction i st w rule: feed_forward_loop.induct) (subst feed_forward_loop.simps, simp)

lemma feed_forward_loop_nth:
  "j < length st \<Longrightarrow> length st = 16 \<Longrightarrow>
   feed_forward_loop i st w ! j = (if i \<le> j then st ! j + w ! j else st ! j)"
proof (induction i st w rule: feed_forward_loop.induct)
  case (1 i st w)
  show ?case
  proof (cases "i < 16")
    case True
    let ?st' = "st[i := st ! i + w ! i]"
    from True have unf: "feed_forward_loop i st w = feed_forward_loop (Suc i) ?st' w"
      by (subst feed_forward_loop.simps) simp
    have IH: "feed_forward_loop (Suc i) ?st' w ! j =
              (if Suc i \<le> j then ?st' ! j + w ! j else ?st' ! j)"
      using 1 True by simp
    consider "j < i" | "j = i" | "i < j" by arith
    then show ?thesis
      using "1.prems" IH by cases (simp_all add: unf)
  next
    case False
    with 1 show ?thesis by (subst feed_forward_loop.simps) simp
  qed
qed

lemma feed_forward_loop_map2:
  assumes "length st = 16" and "length w = 16"
  shows "feed_forward_loop 0 st w = map2 (+) st w"
  using assms
  by (simp add: list_eq_iff_nth_eq feed_forward_loop_length feed_forward_loop_nth)

lemma compress_spec: 
  assumes "length H = 16"
  shows "compress H B = spec_compress H B"
  using assms
  by (simp add: compress_def spec_compress_def spec_rounds_def Let_def round_loop_foldl
        feed_forward_loop_map2 foldl_spec_round_step_length)

lemma compress_length: "length (compress st block) = length st"
  by (simp add: compress_def Let_def feed_forward_loop_length)

text \<open>
  Claim C2. For a pre-block state \<open>H\<close> of 16 words and a block \<open>B\<close>, \<open>compress\<close>
  computes what the specification describes: the working state starts as \<open>H\<close>, the
  52 steps for \<open>r = 0, \<dots>, 51\<close> each apply the round with \<open>W[r]\<close> and \<open>K[r]\<close> and then,
  when \<open>(r + 1) mod 4 = 0\<close>, the permutation (so also after the last round, \<open>r = 51\<close>),
  and every word of the result is \<open>H[i]\<close> plus the word \<open>i\<close> of the working state,
  modulo \<open>2 ^ 32\<close>: the working state is added, it does not replace \<open>H\<close>.
\<close>

theorem compress_structure:
  assumes "length H = 16" and "i < 16"
  shows "compress H B = spec_compress H B
         \<and> compress H B ! i = H ! i + spec_rounds H B 52 ! i
         \<and> length (compress H B) = 16
         \<and> spec_rounds H B 0 = H
         \<and> spec_rounds H B 52 =
             full_permutation
               (nexthash_round (spec_rounds H B 51)
                  (expand_message B (replicate 52 0) ! 51) (K ! 51))"
proof -
  have c: "compress H B = spec_compress H B" using assms(1) by (rule compress_spec)
  have "length (spec_rounds H B 52) = 16"
    using assms(1) by (simp add: spec_rounds_def foldl_spec_round_step_length)
  then have n: "spec_compress H B ! i = H ! i + spec_rounds H B 52 ! i"
    using assms by (simp add: spec_compress_def)
  have "[0..<52] = [0..<51] @ [51]"
    using upt_Suc_append [of 0 51] by simp
  then have l: "spec_rounds H B 52 =
             full_permutation
               (nexthash_round (spec_rounds H B 51)
                  (expand_message B (replicate 52 0) ! 51) (K ! 51))"
    by (simp add: spec_rounds_def spec_round_step_def)
  have z: "spec_rounds H B 0 = H" by (simp add: spec_rounds_def)
  have len: "length (compress H B) = 16" using assms(1) by (simp add: compress_length)
  from n c have n': "compress H B ! i = H ! i + spec_rounds H B 52 ! i" by simp
  show ?thesis by (intro conjI c n' len z l)
qed

theorem compress_structure_witness:
  "compress H_INIT (replicate 64 0) = spec_compress H_INIT (replicate 64 0)
   \<and> compress H_INIT (replicate 64 0) ! 0 = H_INIT ! 0 + spec_rounds H_INIT (replicate 64 0) 52 ! 0
   \<and> length (compress H_INIT (replicate 64 0)) = 16
   \<and> spec_rounds H_INIT (replicate 64 0) 0 = H_INIT
   \<and> spec_rounds H_INIT (replicate 64 0) 52 =
       full_permutation
         (nexthash_round (spec_rounds H_INIT (replicate 64 0) 51)
            (expand_message (replicate 64 0) (replicate 52 0) ! 51) (K ! 51))"
  by (rule compress_structure) (simp_all add: H_INIT_def)

subsection \<open>The context invariant\<close>

lemma block_loop_len: "block_loop st data len = (st', data', len') \<Longrightarrow> len' < 64"
proof (induction st data len rule: block_loop.induct)
  case (1 st data len)
  then show ?case
    by (subst (asm) (2) block_loop.simps) (auto split: if_splits)
qed

lemma update_blocks_buflen:
  "buflen ctx < 64 \<Longrightarrow> buflen (update_blocks ctx data len) < 64"
  by (auto simp: update_blocks_def Let_def split: prod.splits dest: block_loop_len)

lemma update_buflen:
  "buflen ctx < 64 \<Longrightarrow> buflen (nexthash256_update ctx data len) < 64"
  by (auto simp: nexthash256_update_def Let_def update_blocks_buflen)

lemma foldl_update_buflen:
  "buflen ctx < 64 \<Longrightarrow>
   buflen (foldl (\<lambda>ctx part. nexthash256_update ctx part (length part)) ctx parts) < 64"
  by (induction parts arbitrary: ctx) (simp_all add: update_buflen)

text \<open>
  Claim C9. Immediately after \<open>nexthash256_init\<close> the context has \<open>buflen < 64\<close>, and a
  call of \<open>nexthash256_update\<close> on a context with \<open>buflen < 64\<close> leaves \<open>buflen < 64\<close>,
  whatever the data and its length; hence so does every context of a streaming run,
  after any number of updates. \<open>buflen\<close> is unsigned, so \<open>0 \<le> buflen\<close> holds always.
\<close>

theorem buflen_invariant:
  assumes "buflen ctx < 64"
  shows "buflen (nexthash256_init c0) < 64
         \<and> buflen (nexthash256_update ctx data len) < 64
         \<and> buflen (absorb_parts c0 parts) < 64
         \<and> 0 \<le> buflen (nexthash256_update ctx data len)"
proof -
  have i: "buflen (nexthash256_init c0) < 64" by (simp add: nexthash256_init_def)
  from foldl_update_buflen [OF i] have "buflen (absorb_parts c0 parts) < 64"
    by (simp add: absorb_parts_def)
  with i update_buflen [OF assms] show ?thesis by simp
qed

theorem buflen_invariant_witness:
  "buflen (nexthash256_init zero_ctx) < 64
   \<and> buflen (nexthash256_update (nexthash256_init zero_ctx) [0x61, 0x62, 0x63] 3) < 64
   \<and> buflen (absorb_parts zero_ctx [[0x61], [], [0x62, 0x63]]) < 64
   \<and> 0 \<le> buflen (nexthash256_update (nexthash256_init zero_ctx) [0x61, 0x62, 0x63] 3)"
  by (rule buflen_invariant) (simp add: nexthash256_init_def)

subsection \<open>An update of length zero\<close>

text \<open>
  Claim C8. On every context of the data model, that is with \<open>buflen\<close> in \<open>[0, 64)\<close> as
  every context that the API produces has it, \<open>nexthash256_update(ctx, data, 0)\<close>
  returns the context with \<open>state\<close>, \<open>bitcount\<close>, \<open>buffer\<close> and \<open>buflen\<close> all unchanged,
  whatever \<open>data\<close> points to.
\<close>

theorem update_len_zero:
  assumes "buflen ctx < 64"
  shows "nexthash256_update ctx data 0 = ctx"
proof (cases "buflen ctx > 0")
  case True
  with assms show ?thesis
    by (simp add: nexthash256_update_def Let_def memcpy_def)
next
  case False
  have "block_loop (state ctx) data 0 = (state ctx, data, 0)"
    by (subst block_loop.simps) simp
  with False show ?thesis
    by (simp add: nexthash256_update_def Let_def update_blocks_def)
qed

theorem update_len_zero_witness:
  "nexthash256_update (nexthash256_init zero_ctx) [0x61, 0x62, 0x63] 0 = nexthash256_init zero_ctx"
  by (rule update_len_zero) (simp add: nexthash256_init_def)

subsection \<open>The context after finalization\<close>

text \<open>
  Claim C7. The context that \<open>nexthash256_final\<close> leaves has all 16 words of \<open>state\<close>
  zero, all 64 bytes of \<open>buffer\<close> zero, \<open>bitcount = 0\<close> and \<open>buflen = 0\<close>.
\<close>

theorem final_zeroes_context:
  "snd (nexthash256_final ctx) =
     \<lparr>state = replicate 16 0, bitcount = 0, buffer = replicate 64 0, buflen = 0\<rparr>"
  by (simp add: nexthash256_final_def Let_def zero_ctx_def)

subsection \<open>Long keys of the MAC\<close>

lemma digest_word_length: "length (digest_word w) = 4"
  by (simp add: digest_word_def)

lemma finalize_hash_length: "length (finalize_hash st) = 32"
  by (simp add: finalize_hash_def Let_def length_concat digest_word_length o_def sum_list_triv)

lemma nexthash256_length: "length (nexthash256 data len) = 32"
  by (simp add: nexthash256_def nexthash256_final_def Let_def finalize_hash_length)

text \<open>
  Claim C6. For a key of more than 64 bytes and every message, the MAC under the key
  equals the MAC under the digest of the key, and that digest has 32 bytes.
\<close>

theorem hmac_long_key:
  assumes "keylen > 64"
  shows "hmac_nexthash256 key keylen data datalen =
           hmac_nexthash256 (nexthash256 key keylen) (length (nexthash256 key keylen))
             data datalen
         \<and> length (nexthash256 key keylen) = 32"
  using assms by (simp add: hmac_nexthash256_def nexthash256_length)

theorem hmac_long_key_witness:
  "hmac_nexthash256 (replicate 65 0x0b) 65 [0x48, 0x69] 2 =
     hmac_nexthash256 (nexthash256 (replicate 65 0x0b) 65)
       (length (nexthash256 (replicate 65 0x0b) 65)) [0x48, 0x69] 2
   \<and> length (nexthash256 (replicate 65 0x0b) 65) = 32"
  by (rule hmac_long_key) simp

subsection \<open>Blocks\<close>

lemma blocks_of_short [simp]: "length xs < 64 \<Longrightarrow> blocks_of xs = []"
  by (subst blocks_of.simps) simp

lemma rest_of_short [simp]: "length xs < 64 \<Longrightarrow> rest_of xs = xs"
  by (subst rest_of.simps) simp

lemma blocks_of_long: "64 \<le> length xs \<Longrightarrow> blocks_of xs = take 64 xs # blocks_of (drop 64 xs)"
  by (subst blocks_of.simps) simp

lemma rest_of_long: "64 \<le> length xs \<Longrightarrow> rest_of xs = rest_of (drop 64 xs)"
  by (subst rest_of.simps) simp

lemma length_rest_of: "length (rest_of xs) = length xs mod 64"
proof (induction xs rule: rest_of.induct)
  case (1 xs)
  show ?case
  proof (cases "64 \<le> length xs")
    case True
    with 1 show ?thesis by (simp add: rest_of_long le_mod_geq)
  next
    case False
    then show ?thesis by simp
  qed
qed

lemma length_blocks_of: "length (blocks_of xs) = length xs div 64"
proof (induction xs rule: blocks_of.induct)
  case (1 xs)
  show ?case
  proof (cases "64 \<le> length xs")
    case True
    with 1 show ?thesis by (simp add: blocks_of_long le_div_geq)
  next
    case False
    then show ?thesis by simp
  qed
qed

lemma concat_blocks_of: "concat (blocks_of xs) @ rest_of xs = xs"
proof (induction xs rule: blocks_of.induct)
  case (1 xs)
  show ?case
  proof (cases "64 \<le> length xs")
    case True
    with 1 show ?thesis by (simp add: blocks_of_long rest_of_long)
  next
    case False
    then show ?thesis by simp
  qed
qed

lemma blocks_of_append:
  "blocks_of (xs @ ys) = blocks_of xs @ blocks_of (rest_of xs @ ys)"
proof (induction xs rule: blocks_of.induct)
  case (1 xs)
  show ?case
  proof (cases "64 \<le> length xs")
    case True
    with 1 show ?thesis by (simp add: blocks_of_long rest_of_long)
  next
    case False
    then show ?thesis by simp
  qed
qed

lemma rest_of_append:
  "rest_of (xs @ ys) = rest_of (rest_of xs @ ys)"
proof (induction xs rule: rest_of.induct)
  case (1 xs)
  show ?case
  proof (cases "64 \<le> length xs")
    case True
    with 1 show ?thesis by (simp add: rest_of_long)
  next
    case False
    then show ?thesis by simp
  qed
qed

subsection \<open>The block loop\<close>

lemma block_loop_tr_blocks:
  "block_loop_tr st data (length data) tr =
     (foldl compress st (blocks_of data), rest_of data, length (rest_of data),
      tr @ blocks_of data)"
proof (induction data arbitrary: st tr rule: blocks_of.induct)
  case (1 xs)
  show ?case
  proof (cases "64 \<le> length xs")
    case True
    have "block_loop_tr st xs (length xs) tr =
          block_loop_tr (compress st (take 64 xs)) (drop 64 xs) (length (drop 64 xs))
            (tr @ [take 64 xs])"
      using True by (subst block_loop_tr.simps) simp
    with True 1 show ?thesis by (simp add: blocks_of_long rest_of_long)
  next
    case False
    then show ?thesis by (subst block_loop_tr.simps) simp
  qed
qed

lemma block_loop_tr_fst:
  "block_loop st data len = (case block_loop_tr st data len tr of (st', data', len', tr') \<Rightarrow> (st', data', len'))"
proof (induction st data len arbitrary: tr rule: block_loop.induct)
  case (1 st data len)
  show ?case
  proof (cases "64 \<le> len")
    case True
    with 1 show ?thesis
      by (subst block_loop.simps, subst block_loop_tr.simps) simp
  next
    case False
    then show ?thesis by (subst block_loop.simps, subst block_loop_tr.simps) simp
  qed
qed

lemma block_loop_blocks:
  "block_loop st data (length data) =
     (foldl compress st (blocks_of data), rest_of data, length (rest_of data))"
  by (simp add: block_loop_tr_fst [where tr = "[]"] block_loop_tr_blocks)

lemma update_blocks_tr_fst:
  "fst (update_blocks_tr ctx data len tr) = update_blocks ctx data len"
  by (simp add: update_blocks_def update_blocks_tr_def Let_def block_loop_tr_fst [where tr = tr]
        split: prod.splits)

lemma update_tr_ctx:
  "fst (nexthash256_update_tr (ctx, tr) data len) = nexthash256_update ctx data len"
  by (simp add: nexthash256_update_def nexthash256_update_tr_def Let_def update_blocks_tr_fst)

lemma final_tr_digest:
  "fst (nexthash256_final_tr (ctx, tr)) = nexthash256_final ctx"
proof -
  obtain c t where "nexthash256_update_tr (ctx, tr) (final_pad ctx) (final_padlen ctx + 8) = (c, t)"
    by (cases "nexthash256_update_tr (ctx, tr) (final_pad ctx) (final_padlen ctx + 8)")
  moreover from this have "nexthash256_update ctx (final_pad ctx) (final_padlen ctx + 8) = c"
    using update_tr_ctx [of ctx tr "final_pad ctx" "final_padlen ctx + 8"] by simp
  ultimately show ?thesis
    by (simp add: nexthash256_final_def nexthash256_final_tr_def Let_def)
qed


subsection \<open>Reading only len bytes\<close>

lemma block_loop_tr_take:
  "len \<le> length data \<Longrightarrow>
   block_loop_tr st (take len data) len tr =
     (case block_loop_tr st data len tr of
        (st', data', len', tr') \<Rightarrow> (st', take len' data', len', tr'))"
proof (induction st data len tr rule: block_loop_tr.induct)
  case (1 st data len tr)
  show ?case
  proof (cases "64 \<le> len")
    case True
    have l: "block_loop_tr st (take len data) len tr =
          block_loop_tr (compress st (take 64 data)) (take (len - 64) (drop 64 data)) (len - 64)
            (tr @ [take 64 data])"
      using True by (subst block_loop_tr.simps) (simp add: drop_take min_def)
    have r: "block_loop_tr st data len tr =
          block_loop_tr (compress st (take 64 data)) (drop 64 data) (len - 64)
            (tr @ [take 64 data])"
      using True by (subst block_loop_tr.simps) simp
    show ?thesis unfolding l r using 1 True by simp
  next
    case False
    then show ?thesis by (subst (1 2) block_loop_tr.simps) simp
  qed
qed

lemma update_blocks_tr_take:
  "len \<le> length data \<Longrightarrow>
   update_blocks_tr ctx (take len data) len tr = update_blocks_tr ctx data len tr"
  by (simp add: update_blocks_tr_def block_loop_tr_take Let_def memcpy_def split: prod.splits)

lemma update_tr_take:
  assumes "len \<le> length data"
  shows "nexthash256_update_tr ct (take len data) len = nexthash256_update_tr ct data len"
proof -
  obtain ctx tr where ct: "ct = (ctx, tr)" by (cases ct)
  have "update_blocks_tr c (drop n (take len data)) (len - n) t =
        update_blocks_tr c (drop n data) (len - n) t" for c n t
    using assms update_blocks_tr_take [of "len - n" "drop n data" c t]
    by (simp add: drop_take)
  then show ?thesis using assms
    by (simp add: ct nexthash256_update_tr_def Let_def memcpy_def min_def update_blocks_tr_take)
qed

subsection \<open>One update\<close>

lemma update_blocks_tr_step:
  assumes "length (buffer ctx) = 64" and "buflen ctx = 0"
  shows "snd (update_blocks_tr ctx d (length d) tr) = tr @ blocks_of d"
    and "state (fst (update_blocks_tr ctx d (length d) tr)) = foldl compress (state ctx) (blocks_of d)"
    and "bitcount (fst (update_blocks_tr ctx d (length d) tr)) = bitcount ctx"
    and "length (buffer (fst (update_blocks_tr ctx d (length d) tr))) = 64"
    and "buflen (fst (update_blocks_tr ctx d (length d) tr)) = length (rest_of d)"
    and "take (length (rest_of d)) (buffer (fst (update_blocks_tr ctx d (length d) tr))) = rest_of d"
proof -
  have "length (rest_of d) \<le> 64" by (simp add: length_rest_of)
  then show "snd (update_blocks_tr ctx d (length d) tr) = tr @ blocks_of d"
    and "state (fst (update_blocks_tr ctx d (length d) tr)) = foldl compress (state ctx) (blocks_of d)"
    and "bitcount (fst (update_blocks_tr ctx d (length d) tr)) = bitcount ctx"
    and "length (buffer (fst (update_blocks_tr ctx d (length d) tr))) = 64"
    and "buflen (fst (update_blocks_tr ctx d (length d) tr)) = length (rest_of d)"
    and "take (length (rest_of d)) (buffer (fst (update_blocks_tr ctx d (length d) tr))) = rest_of d"
    using assms
    by (simp_all add: update_blocks_tr_def block_loop_tr_blocks Let_def memcpy_def)
qed


lemma update_tr_step:
  fixes ctx :: nexthash256_ctx and d :: "u8 list" and tr :: trace
  assumes len: "length (buffer ctx) = 64" and lt: "buflen ctx < 64"
  defines "r \<equiv> take (buflen ctx) (buffer ctx)"
  defines "U \<equiv> nexthash256_update_tr (ctx, tr) d (length d)"
  shows "snd U = tr @ blocks_of (r @ d)
         \<and> state (fst U) = foldl compress (state ctx) (blocks_of (r @ d))
         \<and> bitcount (fst U) = bitcount ctx + of_nat (length d * 8)
         \<and> length (buffer (fst U)) = 64
         \<and> buflen (fst U) = length (rest_of (r @ d))
         \<and> take (buflen (fst U)) (buffer (fst U)) = rest_of (r @ d)"
proof -
  let ?ctx1 = "ctx\<lparr>bitcount := bitcount ctx + of_nat (length d * 8)\<rparr>"
  have lr: "length r = buflen ctx" using len lt by (simp add: r_def)
  consider (empty) "buflen ctx = 0"
    | (fill) "0 < buflen ctx" "length d < 64 - buflen ctx"
    | (full) "0 < buflen ctx" "64 - buflen ctx \<le> length d" by linarith
  then show ?thesis
  proof cases
    case empty
    then have U: "U = update_blocks_tr ?ctx1 d (length d) tr"
      by (simp add: U_def nexthash256_update_tr_def)
    have r: "r = []" using empty by (simp add: r_def)
    have "length (buffer ?ctx1) = 64" "buflen ?ctx1 = 0" using len empty by simp_all
    from update_blocks_tr_step [OF this, of d tr] show ?thesis
      by (simp add: U r)
  next
    case fill
    then have U: "U = (?ctx1\<lparr>buffer := memcpy (buffer ctx) (buflen ctx) d (length d),
                              buflen := buflen ctx + length d\<rparr>, tr)"
      by (simp add: U_def nexthash256_update_tr_def Let_def)
    have short: "length (r @ d) < 64" using fill lr by simp
    have "memcpy (buffer ctx) (buflen ctx) d (length d) =
            r @ d @ drop (buflen ctx + length d) (buffer ctx)"
      by (simp add: memcpy_def r_def)
    then show ?thesis using short lr len fill
      by (simp add: U)
  next
    case full
    let ?need = "64 - buflen ctx"
    let ?buf = "memcpy (buffer ctx) (buflen ctx) d ?need"
    let ?ctx2 = "?ctx1\<lparr>buffer := ?buf, state := compress (state ctx) ?buf, buflen := 0\<rparr>"
    let ?d' = "drop ?need d"
    from full have U: "U = update_blocks_tr ?ctx2 ?d' (length ?d') (tr @ [?buf])"
      by (simp add: U_def nexthash256_update_tr_def Let_def)
    have buf: "?buf = r @ take ?need d"
      using len by (simp add: memcpy_def r_def)
    have lbuf: "length ?buf = 64" using full lr lt unfolding buf by simp
    have long: "64 \<le> length (r @ d)" using full lr by simp
    have tk: "take 64 (r @ d) = ?buf" using lr lt unfolding buf by simp
    have dr: "drop 64 (r @ d) = ?d'" using lr lt by simp
    have b: "blocks_of (r @ d) = ?buf # blocks_of ?d'"
      using blocks_of_long [OF long] tk dr by simp
    have rs: "rest_of (r @ d) = rest_of ?d'"
      using rest_of_long [OF long] dr by simp
    have "length (buffer ?ctx2) = 64" "buflen ?ctx2 = 0" using lbuf by simp_all
    from update_blocks_tr_step [OF this, of ?d' "tr @ [?buf]"] show ?thesis
      unfolding U b rs by simp
  qed
qed

lemma update_step:
  fixes ctx :: nexthash256_ctx and d :: "u8 list"
  assumes "length (buffer ctx) = 64" and "buflen ctx < 64"
  defines "r \<equiv> take (buflen ctx) (buffer ctx)"
  defines "c \<equiv> nexthash256_update ctx d (length d)"
  shows "state c = foldl compress (state ctx) (blocks_of (r @ d))
         \<and> bitcount c = bitcount ctx + of_nat (length d * 8)
         \<and> length (buffer c) = 64
         \<and> buflen c = length (rest_of (r @ d))
         \<and> take (buflen c) (buffer c) = rest_of (r @ d)"
proof -
  have "fst (nexthash256_update_tr (ctx, []) d (length d)) = c"
    by (simp add: update_tr_ctx c_def)
  with update_tr_step [OF assms(1,2), of "[]" d] show ?thesis
    unfolding r_def by auto
qed

subsection \<open>Streaming runs\<close>

lemma absorbed_init: "length (buffer c0) = 64 \<Longrightarrow> absorbed (nexthash256_init c0) []"
  by (simp add: absorbed_def nexthash256_init_def)

lemma absorbed_buflen: "absorbed ctx M \<Longrightarrow> buflen ctx = length M mod 64"
  by (simp add: absorbed_def length_rest_of)

lemma absorbed_update:
  assumes "absorbed ctx M"
  shows "absorbed (nexthash256_update ctx d (length d)) (M @ d)"
proof -
  from assms have len: "length (buffer ctx) = 64"
    and r: "take (buflen ctx) (buffer ctx) = rest_of M"
    by (auto simp: absorbed_def)
  from assms have lt: "buflen ctx < 64"
    by (simp add: absorbed_buflen)
  from update_step [OF len lt, of d] assms show ?thesis
    unfolding r
    by (auto simp: absorbed_def blocks_of_append [of M d] rest_of_append [of M d] algebra_simps)
qed

lemma absorbed_foldl:
  "absorbed ctx M \<Longrightarrow>
   absorbed (foldl (\<lambda>ctx part. nexthash256_update ctx part (length part)) ctx parts)
     (M @ concat parts)"
proof (induction parts arbitrary: ctx M)
  case Nil
  then show ?case by simp
next
  case (Cons p parts)
  from Cons.IH [OF absorbed_update [OF Cons.prems, of p]] show ?case by simp
qed

lemma absorbed_parts:
  "length (buffer c0) = 64 \<Longrightarrow> absorbed (absorb_parts c0 parts) (concat parts)"
  using absorbed_foldl [OF absorbed_init, of c0 parts] by (simp add: absorb_parts_def)

lemma absorb_parts_tr_foldl:
  "foldl (\<lambda>ct part. nexthash256_update_tr ct part (length part)) (ctx, tr) parts =
   (foldl (\<lambda>ctx part. nexthash256_update ctx part (length part)) ctx parts,
    snd (foldl (\<lambda>ct part. nexthash256_update_tr ct part (length part)) (ctx, tr) parts))"
proof (induction parts arbitrary: ctx tr)
  case Nil
  then show ?case by simp
next
  case (Cons p parts)
  obtain c t where u: "nexthash256_update_tr (ctx, tr) p (length p) = (c, t)"
    by (cases "nexthash256_update_tr (ctx, tr) p (length p)")
  then have "nexthash256_update ctx p (length p) = c"
    using update_tr_ctx [of ctx tr p "length p"] by simp
  with u Cons.IH [of c t] show ?case by simp
qed

lemma absorb_parts_tr_ctx: "fst (absorb_parts_tr c0 parts) = absorb_parts c0 parts"
  unfolding absorb_parts_tr_def absorb_parts_def
  by (subst absorb_parts_tr_foldl) simp

lemma trace_foldl:
  "absorbed ctx M \<Longrightarrow>
   snd (foldl (\<lambda>ct part. nexthash256_update_tr ct part (length part)) (ctx, blocks_of M) parts)
     = blocks_of (M @ concat parts)"
proof (induction parts arbitrary: ctx M)
  case Nil
  then show ?case by simp
next
  case (Cons p parts)
  from Cons.prems have len: "length (buffer ctx) = 64"
    and r: "take (buflen ctx) (buffer ctx) = rest_of M"
    by (auto simp: absorbed_def)
  from Cons.prems have lt: "buflen ctx < 64"
    by (simp add: absorbed_buflen)
  obtain c t where u: "nexthash256_update_tr (ctx, blocks_of M) p (length p) = (c, t)"
    by (cases "nexthash256_update_tr (ctx, blocks_of M) p (length p)")
  then have c: "nexthash256_update ctx p (length p) = c"
    using update_tr_ctx [of ctx "blocks_of M" p "length p"] by simp
  have t: "t = blocks_of (M @ p)"
    using update_tr_step [OF len lt, of "blocks_of M" p] u
    by (simp add: r blocks_of_append [of M p])
  have "absorbed c (M @ p)" using absorbed_update [OF Cons.prems, of p] c by simp
  from Cons.IH [OF this] show ?case by (simp add: u t)
qed

lemma absorb_parts_tr_trace:
  "length (buffer c0) = 64 \<Longrightarrow> snd (absorb_parts_tr c0 parts) = blocks_of (concat parts)"
  using trace_foldl [OF absorbed_init, of c0 parts] by (simp add: absorb_parts_tr_def)

subsection \<open>The padding bytes\<close>

lemma be_byte: "(ucast (drop_bit n (w :: u64)) :: u8) = of_nat (unat w div 2 ^ n mod 256)"
proof -
  have "(ucast (drop_bit n w) :: u8) = of_nat (unat (drop_bit n w))"
    by simp
  also have "unat (drop_bit n w) = unat w div 2 ^ n"
    unfolding unat_drop_bit_eq by (simp add: drop_bit_eq_div)
  also have "(of_nat (unat w div 2 ^ n) :: u8) = of_nat (unat w div 2 ^ n mod 256)"
    by (simp add: word_of_nat_eq_iff take_bit_eq_mod)
  finally show ?thesis .
qed

lemma be_bytes_spec:
  "[ucast (drop_bit 56 w), ucast (drop_bit 48 w), ucast (drop_bit 40 w), ucast (drop_bit 32 w),
    ucast (drop_bit 24 w), ucast (drop_bit 16 w), ucast (drop_bit 8 w), ucast (w :: u64)]
   = spec_be64 (unat w)"
proof -
  have "[0..<8] = [0, 1, 2, 3, 4, 5, 6, 7]" by (simp add: upt_rec)
  moreover have "(ucast w :: u8) = of_nat (unat w div 2 ^ 0 mod 256)"
    using be_byte [of 0 w] by simp
  ultimately show ?thesis
    by (simp add: spec_be64_def be_byte)
qed

lemma pad_bytes:
  assumes "1 \<le> p" and "p \<le> 120"
  shows "take (p + 8)
           ((memset ((replicate 128 0)[0 := 0x80]) 1 0 (p - 1))
              [p := b7, p + 1 := b6, p + 2 := b5, p + 3 := b4,
               p + 4 := b3, p + 5 := b2, p + 6 := b1, p + 7 := b0])
         = 0x80 # replicate (p - 1) 0 @ [b7, b6, b5, b4, b3, b2, b1, b0]"
  using assms
  by (auto simp: list_eq_iff_nth_eq memset_def nth_append nth_Cons' nth_list_update min_def)

subsection \<open>Finalization of a streaming run\<close>

lemma final_padlen_bounds:
  "buflen ctx < 64 \<Longrightarrow> 1 \<le> final_padlen ctx \<and> final_padlen ctx \<le> 64"
  by (auto simp: final_padlen_def)

lemma final_padlen_spec: "final_padlen ctx = spec_padlen (buflen ctx)"
  by (simp add: final_padlen_def spec_padlen_def)

lemma final_pad_length:
  "buflen ctx < 64 \<Longrightarrow> length (final_pad ctx) = 128"
  using final_padlen_bounds [of ctx]
  by (simp add: final_pad_def Let_def memset_def)

lemma final_pad_bytes:
  assumes "buflen ctx < 64"
  shows "take (final_padlen ctx + 8) (final_pad ctx) =
           0x80 # replicate (final_padlen ctx - 1) 0 @ spec_be64 (unat (bitcount ctx))"
proof -
  from final_padlen_bounds [OF assms]
  have "1 \<le> final_padlen ctx" and "final_padlen ctx \<le> 120" by simp_all
  from pad_bytes [OF this] show ?thesis
    by (simp add: final_pad_def Let_def be_bytes_spec)
qed

lemma absorbed_bitcount:
  fixes ctx :: nexthash256_ctx
  assumes "absorbed ctx M"
  shows "unat (bitcount ctx) = 8 * length M mod 2 ^ 64"
proof -
  from assms have "bitcount ctx = of_nat (length M * 8)"
    unfolding absorbed_def by blast
  then have "unat (bitcount ctx) = length M * 8 mod 2 ^ LENGTH(64)"
    by (simp only: unat_of_nat)
  then show ?thesis by (simp add: mult.commute)
qed

lemma absorbed_padding:
  assumes "absorbed ctx M"
  shows "take (final_padlen ctx + 8) (final_pad ctx) = spec_padding (length M)"
proof -
  have lt: "buflen ctx < 64" using assms by (simp add: absorbed_buflen)
  show ?thesis
    using final_pad_bytes [OF lt] assms
    by (simp add: spec_padding_def final_padlen_spec absorbed_buflen absorbed_bitcount)
qed

lemma spec_be64_length: "length (spec_be64 n) = 8"
  by (simp add: spec_be64_def)

lemma spec_padding_length: "length (spec_padding L) = spec_padlen (L mod 64) + 8"
  by (auto simp: spec_padding_def spec_be64_length spec_padlen_def)

lemma padded_length_aux:
  assumes "b < 64"
  shows "(64 * q + b + (spec_padlen b + 8)) mod 64 = 0"
    and "(64 * q + b + (spec_padlen b + 8)) div 64 = q + (if b < 56 then 1 else 2)"
proof -
  have e: "64 * q + b + (spec_padlen b + 8) = 64 * (q + (if b < 56 then 1 else 2))"
    using assms by (simp add: spec_padlen_def)
  show "(64 * q + b + (spec_padlen b + 8)) mod 64 = 0"
    unfolding e by simp
  show "(64 * q + b + (spec_padlen b + 8)) div 64 = q + (if b < 56 then 1 else 2)"
    unfolding e by simp
qed

lemma padded_length:
  "(L + (spec_padlen (L mod 64) + 8)) mod 64 = 0"
  "(L + (spec_padlen (L mod 64) + 8)) div 64 = L div 64 + (if L mod 64 < 56 then 1 else 2)"
  using padded_length_aux [of "L mod 64" "L div 64"] by simp_all

lemma final_update_tr:
  assumes "absorbed ctx M"
  shows "nexthash256_update_tr (ctx, tr) (final_pad ctx) (final_padlen ctx + 8) =
         nexthash256_update_tr (ctx, tr) (spec_padding (length M)) (length (spec_padding (length M)))"
proof -
  have lt: "buflen ctx < 64" using assms by (simp add: absorbed_buflen)
  have "final_padlen ctx + 8 \<le> length (final_pad ctx)"
    using final_padlen_bounds [OF lt] final_pad_length [OF lt] by simp
  from update_tr_take [OF this, of "(ctx, tr)"] show ?thesis
    using absorbed_padding [OF assms] assms
    by (simp add: spec_padding_length final_padlen_spec absorbed_buflen)
qed

lemma final_update:
  assumes "absorbed ctx M"
  shows "nexthash256_update ctx (final_pad ctx) (final_padlen ctx + 8) =
         nexthash256_update ctx (spec_padding (length M)) (length (spec_padding (length M)))"
  using arg_cong [OF final_update_tr [OF assms, of "[]"], of fst]
  by (simp add: update_tr_ctx)

lemma final_absorbed:
  assumes "absorbed ctx M"
  shows "absorbed (nexthash256_update ctx (final_pad ctx) (final_padlen ctx + 8))
           (M @ spec_padding (length M))"
  unfolding final_update [OF assms] using assms by (rule absorbed_update)

lemma digest_absorbed:
  assumes "absorbed ctx M"
  shows "fst (nexthash256_final ctx) =
         finalize_hash (foldl compress H_INIT (blocks_of (M @ spec_padding (length M))))"
  using final_absorbed [OF assms]
  by (simp add: nexthash256_final_def Let_def absorbed_def)

lemma nexthash256_blocks:
  "nexthash256 M (length M) =
   finalize_hash (foldl compress H_INIT (blocks_of (M @ spec_padding (length M))))"
proof -
  have "absorbed (nexthash256_init local_ctx) []"
    by (rule absorbed_init) (simp add: local_ctx_def zero_ctx_def)
  from absorbed_update [OF this, of M] show ?thesis
    by (simp add: nexthash256_def Let_def digest_absorbed)
qed

lemma final_tr_trace:
  assumes "absorbed ctx M"
  shows "snd (nexthash256_final_tr (ctx, blocks_of M)) = blocks_of (M @ spec_padding (length M))"
proof -
  from assms have len: "length (buffer ctx) = 64"
    and r: "take (buflen ctx) (buffer ctx) = rest_of M"
    by (auto simp: absorbed_def)
  from assms have lt: "buflen ctx < 64" by (simp add: absorbed_buflen)
  have "snd (nexthash256_final_tr (ctx, blocks_of M)) =
        snd (nexthash256_update_tr (ctx, blocks_of M) (final_pad ctx) (final_padlen ctx + 8))"
    by (simp add: nexthash256_final_tr_def split: prod.splits)
  also have "\<dots> = blocks_of M @ blocks_of (rest_of M @ spec_padding (length M))"
    unfolding final_update_tr [OF assms]
    using update_tr_step [OF len lt, of "blocks_of M" "spec_padding (length M)"]
    by (simp add: r)
  finally show ?thesis by (simp add: blocks_of_append [of M])
qed

lemma update_blocks_bitcount: "bitcount (update_blocks ctx data len) = bitcount ctx"
  by (simp add: update_blocks_def Let_def split: prod.splits)

lemma update_bitcount:
  "bitcount (nexthash256_update ctx data len) = bitcount ctx + of_nat (len * 8)"
  by (simp add: nexthash256_update_def Let_def update_blocks_bitcount)

lemma concat_blocks_of_full: "length xs mod 64 = 0 \<Longrightarrow> concat (blocks_of xs) = xs"
  using concat_blocks_of [of xs] length_rest_of [of xs] by simp

lemma drop_pad_prefix: "1 \<le> p \<Longrightarrow> drop p (x # replicate (p - 1) y @ zs) = zs"
  by (cases p) simp_all

lemma ceiling_blocks:
  "\<lceil>(real L + 9) / 64\<rceil> = int (L div 64 + (if L mod 64 < 56 then 1 else 2))"
proof -
  define q b where "q = L div 64" and "b = L mod 64"
  have L: "L = 64 * q + b" and b: "b < 64" by (simp_all add: q_def b_def)
  have "\<lceil>(real (64 * q + b) + 9) / 64\<rceil> = int (q + (if b < 56 then 1 else 2))"
    using b by (intro ceiling_unique) (auto simp: field_simps)
  then show ?thesis by (simp add: L [symmetric] q_def b_def)
qed

lemma spec_be64_example:
  "spec_be64 0x0102030405060708 = [1, 2, 3, 4, 5, 6, 7, 8]"
  by (simp add: spec_be64_def upt_rec)

subsection \<open>Streaming and one-shot hashing\<close>

text \<open>
  Claim C1. For every byte sequence and every way of cutting it into parts (any
  number of parts, also none, and parts of any length, also empty ones), the digest of
  the streaming run, \<open>nexthash256_init\<close> on a context, \<open>nexthash256_update\<close> on each
  part in order and \<open>nexthash256_final\<close>, is the digest that the one-shot function
  \<open>nexthash256\<close> gives on the whole sequence. The context handed to
  \<open>nexthash256_init\<close> is arbitrary; its \<open>buffer\<close> is an array of 64 bytes.
\<close>

theorem streaming_equivalence:
  assumes "length (buffer c0) = 64"
  shows "fst (nexthash256_final (absorb_parts c0 parts)) =
         nexthash256 (concat parts) (length (concat parts))"
  using digest_absorbed [OF absorbed_parts [OF assms, of parts]]
  by (simp add: nexthash256_blocks)

theorem streaming_equivalence_witness:
  "fst (nexthash256_final (absorb_parts zero_ctx ([[0x61], [], [0x62, 0x63]] :: u8 list list))) =
   nexthash256 (concat ([[0x61], [], [0x62, 0x63]] :: u8 list list)) (length (concat ([[0x61], [], [0x62, 0x63]] :: u8 list list)))"
  by (rule streaming_equivalence) (simp add: zero_ctx_def)

subsection \<open>The number of compression calls\<close>

text \<open>
  Claim C4. In a streaming run over parts that total \<open>L\<close> bytes, the number of blocks
  handed to \<open>compress\<close> up to the end of \<open>nexthash256_final\<close> is the ceiling of
  \<open>(L + 9) / 64\<close>. The traced run computes the digest and context of the run itself.
  Before finalization \<open>buflen\<close> is \<open>b = L mod 64\<close> and \<open>L div 64\<close> blocks have been
  compressed; the padding length is \<open>56 - b\<close> when \<open>b < 56\<close> and \<open>120 - b\<close> otherwise;
  absorbing the \<open>padlen + 8\<close> bytes of padding and length compresses one more block
  when \<open>b < 56\<close> and two otherwise, and leaves \<open>buflen = 0\<close>.
\<close>

theorem compress_call_count:
  assumes "length (buffer c0) = 64"
  shows "int (length (snd (nexthash256_final_tr (absorb_parts_tr c0 parts)))) =
           \<lceil>(real (length (concat parts)) + 9) / 64\<rceil>
         \<and> fst (nexthash256_final_tr (absorb_parts_tr c0 parts)) =
             nexthash256_final (absorb_parts c0 parts)
         \<and> buflen (absorb_parts c0 parts) = length (concat parts) mod 64
         \<and> final_padlen (absorb_parts c0 parts) =
             (if length (concat parts) mod 64 < 56 then 56 - length (concat parts) mod 64
              else 120 - length (concat parts) mod 64)
         \<and> length (snd (absorb_parts_tr c0 parts)) = length (concat parts) div 64
         \<and> length (snd (nexthash256_final_tr (absorb_parts_tr c0 parts))) =
             length (snd (absorb_parts_tr c0 parts)) +
             (if length (concat parts) mod 64 < 56 then 1 else 2)
         \<and> buflen (nexthash256_update (absorb_parts c0 parts)
               (final_pad (absorb_parts c0 parts)) (final_padlen (absorb_parts c0 parts) + 8)) = 0"
proof -
  let ?M = "concat parts" and ?ctx = "absorb_parts c0 parts"
  have ab: "absorbed ?ctx ?M" using assms by (rule absorbed_parts)
  have T: "absorb_parts_tr c0 parts = (?ctx, blocks_of ?M)"
    using absorb_parts_tr_ctx [of c0 parts] absorb_parts_tr_trace [OF assms, of parts]
    by (simp add: prod_eq_iff)
  have tr: "snd (nexthash256_final_tr (absorb_parts_tr c0 parts)) =
            blocks_of (?M @ spec_padding (length ?M))"
    unfolding T using ab by (rule final_tr_trace)
  have n: "length (snd (nexthash256_final_tr (absorb_parts_tr c0 parts))) =
           length ?M div 64 + (if length ?M mod 64 < 56 then 1 else 2)"
    unfolding tr by (simp add: length_blocks_of spec_padding_length padded_length)
  have c1: "int (length (snd (nexthash256_final_tr (absorb_parts_tr c0 parts)))) =
           \<lceil>(real (length ?M) + 9) / 64\<rceil>"
    unfolding n ceiling_blocks ..
  have c2: "fst (nexthash256_final_tr (absorb_parts_tr c0 parts)) = nexthash256_final ?ctx"
    unfolding T by (rule final_tr_digest)
  have c3: "buflen ?ctx = length ?M mod 64" using ab by (rule absorbed_buflen)
  have c4: "final_padlen ?ctx =
             (if length ?M mod 64 < 56 then 56 - length ?M mod 64 else 120 - length ?M mod 64)"
    by (simp add: final_padlen_def c3)
  have c5: "length (snd (absorb_parts_tr c0 parts)) = length ?M div 64"
    by (simp add: T length_blocks_of)
  have c6: "length (snd (nexthash256_final_tr (absorb_parts_tr c0 parts))) =
             length (snd (absorb_parts_tr c0 parts)) + (if length ?M mod 64 < 56 then 1 else 2)"
    unfolding n c5 ..
  have "buflen (nexthash256_update ?ctx (final_pad ?ctx) (final_padlen ?ctx + 8)) =
        length (?M @ spec_padding (length ?M)) mod 64"
    using final_absorbed [OF ab] by (rule absorbed_buflen)
  then have c7: "buflen (nexthash256_update ?ctx (final_pad ?ctx) (final_padlen ?ctx + 8)) = 0"
    by (simp add: spec_padding_length padded_length)
  show ?thesis by (intro conjI c1 c2 c3 c4 c5 c6 c7)
qed

theorem compress_call_count_witness:
  "int (length (snd (nexthash256_final_tr (absorb_parts_tr zero_ctx ([[0x61], [], [0x62, 0x63]] :: u8 list list))))) =
  \<lceil>(real (length (concat ([[0x61], [], [0x62, 0x63]] :: u8 list list))) + 9) / 64\<rceil>
  \<and> fst (nexthash256_final_tr (absorb_parts_tr zero_ctx ([[0x61], [], [0x62, 0x63]] :: u8 list list))) =
  nexthash256_final (absorb_parts zero_ctx ([[0x61], [], [0x62, 0x63]] :: u8 list list))
  \<and> buflen (absorb_parts zero_ctx ([[0x61], [], [0x62, 0x63]] :: u8 list list)) = length (concat ([[0x61], [], [0x62, 0x63]] :: u8 list list)) mod 64
  \<and> final_padlen (absorb_parts zero_ctx ([[0x61], [], [0x62, 0x63]] :: u8 list list)) =
  (if length (concat ([[0x61], [], [0x62, 0x63]] :: u8 list list)) mod 64 < 56 then 56 - length (concat ([[0x61], [], [0x62, 0x63]] :: u8 list list)) mod 64
  else 120 - length (concat ([[0x61], [], [0x62, 0x63]] :: u8 list list)) mod 64)
  \<and> length (snd (absorb_parts_tr zero_ctx ([[0x61], [], [0x62, 0x63]] :: u8 list list))) = length (concat ([[0x61], [], [0x62, 0x63]] :: u8 list list)) div 64
  \<and> length (snd (nexthash256_final_tr (absorb_parts_tr zero_ctx ([[0x61], [], [0x62, 0x63]] :: u8 list list)))) =
  length (snd (absorb_parts_tr zero_ctx ([[0x61], [], [0x62, 0x63]] :: u8 list list))) +
  (if length (concat ([[0x61], [], [0x62, 0x63]] :: u8 list list)) mod 64 < 56 then 1 else 2)
  \<and> buflen (nexthash256_update (absorb_parts zero_ctx ([[0x61], [], [0x62, 0x63]] :: u8 list list))
  (final_pad (absorb_parts zero_ctx ([[0x61], [], [0x62, 0x63]] :: u8 list list))) (final_padlen (absorb_parts zero_ctx ([[0x61], [], [0x62, 0x63]] :: u8 list list)) + 8)) = 0"
  by (rule compress_call_count) (simp add: zero_ctx_def)

subsection \<open>The length suffix\<close>

text \<open>
  Claim C5. In a streaming run over parts that total \<open>L\<close> bytes, \<open>nexthash256_final\<close>
  hands to \<open>nexthash256_update\<close> the first \<open>padlen + 8\<close> bytes of its array \<open>pad\<close>,
  built from the context as it is before any padding byte is absorbed, and returns the
  fold of the state that this call leaves. The eight bytes at \<open>pad[padlen]\<close> to
  \<open>pad[padlen + 7]\<close> are the big-endian bytes of \<open>8 * L mod 2 ^ 64\<close>, the bit count
  before padding; the bytes handed over are \<open>0x80\<close>, \<open>padlen - 1\<close> zero bytes and these
  eight. That call does add the \<open>8 * (padlen + 8)\<close> padding bits to \<open>bitcount\<close>, after
  the suffix has been written, and the counter is not read again. Hence the digest
  that \<open>nexthash256_final\<close> returns is the fold of the state reached by compressing the
  blocks of the message followed by exactly these padding and length bytes, and these
  are the blocks that the traced run, which is the run itself, hands to \<open>compress\<close>.
\<close>

theorem length_suffix:
  assumes "length (buffer c0) = 64"
  shows "nexthash256_final (absorb_parts c0 parts) =
           (finalize_hash (state (nexthash256_update (absorb_parts c0 parts)
               (final_pad (absorb_parts c0 parts)) (final_padlen (absorb_parts c0 parts) + 8))),
            zero_ctx)
         \<and> fst (nexthash256_final (absorb_parts c0 parts)) =
             finalize_hash (foldl compress H_INIT (blocks_of
               (concat parts @ 0x80 # replicate (final_padlen (absorb_parts c0 parts) - 1) 0
                  @ spec_be64 (8 * length (concat parts) mod 2 ^ 64))))
         \<and> fst (nexthash256_final_tr (absorb_parts_tr c0 parts)) =
             nexthash256_final (absorb_parts c0 parts)
         \<and> take 8 (drop (final_padlen (absorb_parts c0 parts)) (final_pad (absorb_parts c0 parts)))
           = spec_be64 (8 * length (concat parts) mod 2 ^ 64)
         \<and> take (final_padlen (absorb_parts c0 parts) + 8) (final_pad (absorb_parts c0 parts))
           = 0x80 # replicate (final_padlen (absorb_parts c0 parts) - 1) 0
               @ spec_be64 (8 * length (concat parts) mod 2 ^ 64)
         \<and> bitcount (absorb_parts c0 parts) = of_nat (8 * length (concat parts))
         \<and> bitcount (nexthash256_update (absorb_parts c0 parts)
               (final_pad (absorb_parts c0 parts)) (final_padlen (absorb_parts c0 parts) + 8))
           = of_nat (8 * length (concat parts))
               + of_nat (8 * (final_padlen (absorb_parts c0 parts) + 8))
         \<and> concat (snd (nexthash256_final_tr (absorb_parts_tr c0 parts)))
           = concat parts @ 0x80 # replicate (final_padlen (absorb_parts c0 parts) - 1) 0
               @ spec_be64 (8 * length (concat parts) mod 2 ^ 64)"
proof -
  let ?M = "concat parts" and ?ctx = "absorb_parts c0 parts"
  let ?p = "final_padlen ?ctx"
  let ?be = "spec_be64 (8 * length ?M mod 2 ^ 64)"
  have ab: "absorbed ?ctx ?M" using assms by (rule absorbed_parts)
  have lt: "buflen ?ctx < 64" using ab by (simp add: absorbed_buflen)
  have p: "1 \<le> ?p" using final_padlen_bounds [OF lt] by simp
  have c2: "take (?p + 8) (final_pad ?ctx) = 0x80 # replicate (?p - 1) 0 @ ?be"
    using final_pad_bytes [OF lt] absorbed_bitcount [OF ab] by simp
  have "take 8 (drop ?p (final_pad ?ctx)) = drop ?p (take (?p + 8) (final_pad ?ctx))"
    by (simp add: drop_take)
  also have "\<dots> = ?be" unfolding c2 using p by (rule drop_pad_prefix)
  finally have c1: "take 8 (drop ?p (final_pad ?ctx)) = ?be" .
  have c3: "bitcount ?ctx = of_nat (8 * length ?M)"
    using ab unfolding absorbed_def by (simp add: mult.commute)
  have c4: "bitcount (nexthash256_update ?ctx (final_pad ?ctx) (?p + 8))
            = of_nat (8 * length ?M) + of_nat (8 * (?p + 8))"
    unfolding update_bitcount c3 by (simp add: mult.commute)
  have T: "absorb_parts_tr c0 parts = (?ctx, blocks_of ?M)"
    using absorb_parts_tr_ctx [of c0 parts] absorb_parts_tr_trace [OF assms, of parts]
    by (simp add: prod_eq_iff)
  have tr: "snd (nexthash256_final_tr (absorb_parts_tr c0 parts)) =
            blocks_of (?M @ spec_padding (length ?M))"
    unfolding T using ab by (rule final_tr_trace)
  have pad: "spec_padding (length ?M) = 0x80 # replicate (?p - 1) 0 @ ?be"
    using absorbed_padding [OF ab] c2 by simp
  have "concat (snd (nexthash256_final_tr (absorb_parts_tr c0 parts))) =
        ?M @ spec_padding (length ?M)"
    unfolding tr by (rule concat_blocks_of_full) (simp add: spec_padding_length padded_length)
  then have c5: "concat (snd (nexthash256_final_tr (absorb_parts_tr c0 parts)))
           = ?M @ 0x80 # replicate (?p - 1) 0 @ ?be"
    unfolding pad .
  have c6: "nexthash256_final ?ctx =
            (finalize_hash (state (nexthash256_update ?ctx (final_pad ?ctx) (?p + 8))), zero_ctx)"
    by (simp add: nexthash256_final_def Let_def)
  have "fst (nexthash256_final ?ctx) =
        finalize_hash (foldl compress H_INIT (blocks_of (?M @ spec_padding (length ?M))))"
    using ab by (rule digest_absorbed)
  then have c7: "fst (nexthash256_final ?ctx) =
        finalize_hash (foldl compress H_INIT (blocks_of (?M @ 0x80 # replicate (?p - 1) 0 @ ?be)))"
    unfolding pad .
  have c8: "fst (nexthash256_final_tr (absorb_parts_tr c0 parts)) = nexthash256_final ?ctx"
    unfolding T by (rule final_tr_digest)
  show ?thesis by (intro conjI c6 c7 c8 c1 c2 c3 c4 c5)
qed

theorem length_suffix_witness:
  "nexthash256_final (absorb_parts zero_ctx ([[0x61], [], [0x62, 0x63]] :: u8 list list)) =
  (finalize_hash (state (nexthash256_update (absorb_parts zero_ctx ([[0x61], [], [0x62, 0x63]] :: u8 list list))
  (final_pad (absorb_parts zero_ctx ([[0x61], [], [0x62, 0x63]] :: u8 list list))) (final_padlen (absorb_parts zero_ctx ([[0x61], [], [0x62, 0x63]] :: u8 list list)) + 8))),
  zero_ctx)
  \<and> fst (nexthash256_final (absorb_parts zero_ctx ([[0x61], [], [0x62, 0x63]] :: u8 list list))) =
  finalize_hash (foldl compress H_INIT (blocks_of
  (concat ([[0x61], [], [0x62, 0x63]] :: u8 list list) @ 0x80 # replicate (final_padlen (absorb_parts zero_ctx ([[0x61], [], [0x62, 0x63]] :: u8 list list)) - 1) 0
  @ spec_be64 (8 * length (concat ([[0x61], [], [0x62, 0x63]] :: u8 list list)) mod 2 ^ 64))))
  \<and> fst (nexthash256_final_tr (absorb_parts_tr zero_ctx ([[0x61], [], [0x62, 0x63]] :: u8 list list))) =
  nexthash256_final (absorb_parts zero_ctx ([[0x61], [], [0x62, 0x63]] :: u8 list list))
  \<and> take 8 (drop (final_padlen (absorb_parts zero_ctx ([[0x61], [], [0x62, 0x63]] :: u8 list list))) (final_pad (absorb_parts zero_ctx ([[0x61], [], [0x62, 0x63]] :: u8 list list))))
  = spec_be64 (8 * length (concat ([[0x61], [], [0x62, 0x63]] :: u8 list list)) mod 2 ^ 64)
  \<and> take (final_padlen (absorb_parts zero_ctx ([[0x61], [], [0x62, 0x63]] :: u8 list list)) + 8) (final_pad (absorb_parts zero_ctx ([[0x61], [], [0x62, 0x63]] :: u8 list list)))
  = 0x80 # replicate (final_padlen (absorb_parts zero_ctx ([[0x61], [], [0x62, 0x63]] :: u8 list list)) - 1) 0
  @ spec_be64 (8 * length (concat ([[0x61], [], [0x62, 0x63]] :: u8 list list)) mod 2 ^ 64)
  \<and> bitcount (absorb_parts zero_ctx ([[0x61], [], [0x62, 0x63]] :: u8 list list)) = of_nat (8 * length (concat ([[0x61], [], [0x62, 0x63]] :: u8 list list)))
  \<and> bitcount (nexthash256_update (absorb_parts zero_ctx ([[0x61], [], [0x62, 0x63]] :: u8 list list))
  (final_pad (absorb_parts zero_ctx ([[0x61], [], [0x62, 0x63]] :: u8 list list))) (final_padlen (absorb_parts zero_ctx ([[0x61], [], [0x62, 0x63]] :: u8 list list)) + 8))
  = of_nat (8 * length (concat ([[0x61], [], [0x62, 0x63]] :: u8 list list)))
  + of_nat (8 * (final_padlen (absorb_parts zero_ctx ([[0x61], [], [0x62, 0x63]] :: u8 list list)) + 8))
  \<and> concat (snd (nexthash256_final_tr (absorb_parts_tr zero_ctx ([[0x61], [], [0x62, 0x63]] :: u8 list list))))
  = concat ([[0x61], [], [0x62, 0x63]] :: u8 list list) @ 0x80 # replicate (final_padlen (absorb_parts zero_ctx ([[0x61], [], [0x62, 0x63]] :: u8 list list)) - 1) 0
  @ spec_be64 (8 * length (concat ([[0x61], [], [0x62, 0x63]] :: u8 list list)) mod 2 ^ 64)"
  by (rule length_suffix) (simp add: zero_ctx_def)

end
